theory Spec2Isabelle
  imports Main "HOL-Library.Word" "HOL-Library.Signed_Division"
begin

unbundle bit_operations_syntax

section \<open>The native functions of \<open>native/native_add.c\<close>\<close>

text \<open>
  The file defines two C functions over \<open>int32_t\<close>.  An \<open>int32_t\<close> is a \<open>32 word\<close>;
  \<open>sint\<close> reads it as the two's-complement value the C program sees.  Addition on
  words wraps modulo \<open>2 ^ 32\<close>: this is what the compiled code does on every target
  of the repository, and what the specification fixes as the meaning of overflow
  (ISO C itself leaves signed overflow undefined).

  Everything a call does besides computing its result is written into a trace that
  is passed in and handed back extended.  The only external call of the source,
  \<open>usleep\<close>, is the event \<open>Usleep us\<close>.  Two further events record the control
  flow of the loop, so that statements about which iterations ran, and in what order
  with respect to the sleep, can be made: \<open>Iter i\<close> when the loop body is entered
  with counter \<open>i\<close>, and \<open>Xor i\<close> when the guarded statement \<open>sum ^= i\<close> runs.
\<close>

type_synonym int32 = "32 word"

datatype event = Iter int32 | Xor int32 | Usleep nat

type_synonym trace = "event list"

subsection \<open>\<open>native_add\<close>\<close>

text \<open>
  \<^verbatim>\<open>int32_t native_add(int32_t x, int32_t y) { return x + y; }\<close>
\<close>

definition native_add :: "int32 \<Rightarrow> int32 \<Rightarrow> trace \<Rightarrow> int32 \<times> trace" where
  "native_add x y tr = (x + y, tr)"

subsection \<open>\<open>heavy_computation\<close>\<close>

text \<open>
  C's \<open>%\<close> on \<open>int32_t\<close> truncates towards zero: the remainder has the sign of the
  dividend.  That is \<open>smod\<close> on the signed values.
\<close>

definition c_rem :: "int32 \<Rightarrow> int32 \<Rightarrow> int32" where
  "c_rem a b = word_of_int (sint a smod sint b)"

text \<open>
  The body of the \<open>for\<close> loop, on the pair of the accumulator and the trace:
  \<^verbatim>\<open>
        sum += i;
        if (i % 1000 == 0) {
            sum ^= i;
        }
  \<close>
\<close>

definition loop_body :: "int32 \<Rightarrow> int32 \<times> trace \<Rightarrow> int32 \<times> trace" where
  "loop_body i st =
     (let sum = fst st + i;
          tr = snd st @ [Iter i]
      in if c_rem i 1000 = 0 then (sum XOR i, tr @ [Xor i]) else (sum, tr))"

text \<open>
  \<^verbatim>\<open>for (int32_t i = 0; i < iterations; i++) { ... }\<close>
  with the signed comparison of C.  The counter is a word as well: that \<open>i++\<close>
  never wraps is a fact to be proved, not a property of the type.
\<close>

function heavy_loop :: "int32 \<Rightarrow> int32 \<Rightarrow> int32 \<times> trace \<Rightarrow> int32 \<times> trace" where
  "heavy_loop iterations i st =
     (if i <s iterations then heavy_loop iterations (i + 1) (loop_body i st) else st)"
  by pat_completeness auto

termination heavy_loop
proof (relation "measure (\<lambda>(n, i, st). nat (sint n - sint i))")
  show "wf (measure (\<lambda>(n :: int32, i :: int32, st :: int32 \<times> trace). nat (sint n - sint i)))"
    by simp
next
  fix iterations i :: int32 and st :: "int32 \<times> trace"
  assume less: "i <s iterations"
  have "sint iterations < 2 ^ 31"
    using sint_lt [of iterations] by simp
  moreover have "- (2 ^ 31) \<le> sint i"
    using sint_ge [of i] by simp
  ultimately have "signed_take_bit 31 (sint i + 1) = sint i + 1"
    using less by (simp add: word_sless_alt signed_take_bit_int_eq_self)
  then have "sint (i + 1) = sint i + 1"
    by (simp add: sint_word_ariths)
  with less show "((iterations, i + 1, loop_body i st), (iterations, i, st))
      \<in> measure (\<lambda>(n, i, st). nat (sint n - sint i))"
    by (simp add: word_sless_alt)
qed

declare heavy_loop.simps [simp del]

text \<open>
  \<^verbatim>\<open>
    int32_t sum = 0;
    for (...) { ... }
    if (iterations > 0) {
        usleep(2000 * 1000);
    }
    return sum;
  \<close>
\<close>

definition heavy_computation :: "int32 \<Rightarrow> trace \<Rightarrow> int32 \<times> trace" where
  "heavy_computation iterations tr0 =
     (let st = heavy_loop iterations 0 (0, tr0);
          tr = (if 0 <s iterations then snd st @ [Usleep (2000 * 1000)] else snd st)
      in (fst st, tr))"

subsection \<open>The two components of the loop body\<close>

text \<open>
  The body acts on the accumulator and on the trace independently of each other:
  \<open>sum_step\<close> is what it does to \<open>sum\<close>, \<open>body_events\<close> is what it appends
  to the trace (lemma \<open>loop_body_split\<close> below).
\<close>

definition sum_step :: "int32 \<Rightarrow> int32 \<Rightarrow> int32" where
  "sum_step i s = (if c_rem i 1000 = 0 then (s + i) XOR i else s + i)"

definition body_events :: "int32 \<Rightarrow> trace" where
  "body_events i = (if c_rem i 1000 = 0 then [Iter i, Xor i] else [Iter i])"

subsection \<open>Reading a trace\<close>

text \<open>
  \<open>sleeps\<close> lists the arguments of the \<open>usleep\<close> calls of a trace in order (in
  microseconds, the unit of \<open>usleep\<close>), \<open>iters\<close> the counter values with which the
  loop body was entered, \<open>xor_sites\<close> the counter values at which \<open>sum ^= i\<close> ran.
\<close>

fun sleeps :: "trace \<Rightarrow> nat list" where
  "sleeps [] = []"
| "sleeps (Usleep us # es) = us # sleeps es"
| "sleeps (e # es) = sleeps es"

fun iters :: "trace \<Rightarrow> int32 list" where
  "iters [] = []"
| "iters (Iter i # es) = i # iters es"
| "iters (e # es) = iters es"

fun xor_sites :: "trace \<Rightarrow> int32 list" where
  "xor_sites [] = []"
| "xor_sites (Xor i # es) = i # xor_sites es"
| "xor_sites (e # es) = xor_sites es"

text \<open>
  \<open>loop_events\<close> is what the loop alone writes when started on an empty trace;
  \<open>counters\<close> lists the values \<open>0, 1, \<dots>, iterations - 1\<close> as words (none when
  \<open>iterations\<close> is not positive).
\<close>

definition loop_events :: "int32 \<Rightarrow> trace" where
  "loop_events iterations = snd (heavy_loop iterations 0 (0, []))"

definition counters :: "int32 \<Rightarrow> int32 list" where
  "counters iterations = map of_nat [0..<nat (sint iterations)]"

section \<open>The accumulation as the specification words it\<close>

text \<open>
  The specification describes the result on mathematical integers: start from \<open>0\<close>,
  let \<open>i\<close> run from \<open>0\<close> to \<open>iterations - 1\<close>, add \<open>i\<close> with 32-bit signed
  wrap-around, and when \<open>i\<close> is a multiple of 1000 apply a bitwise exclusive or with
  \<open>i\<close> after the addition.  \<open>wrap32\<close> is the wrap-around written out: the residue
  modulo \<open>2 ^ 32\<close> that lies in \<open>[- 2 ^ 31, 2 ^ 31)\<close>.
\<close>

definition wrap32 :: "int \<Rightarrow> int" where
  "wrap32 k = (k + 2 ^ 31) mod 2 ^ 32 - 2 ^ 31"

definition spec_step :: "int \<Rightarrow> int \<Rightarrow> int" where
  "spec_step i acc = (let acc = wrap32 (acc + i) in if i mod 1000 = 0 then acc XOR i else acc)"

definition spec_heavy :: "int \<Rightarrow> int" where
  "spec_heavy iterations = fold spec_step [0..iterations - 1] 0"

section \<open>Facts about the counter\<close>

text \<open>Below the bound, \<open>i++\<close> is the exact successor: the counter never wraps.\<close>

lemma sint_succ_below:
  fixes i n :: int32
  assumes "i <s n"
  shows "sint (i + 1) = sint i + 1"
proof -
  have "sint n < 2 ^ 31"
    using sint_lt [of n] by simp
  moreover have "- (2 ^ 31) \<le> sint i"
    using sint_ge [of i] by simp
  ultimately have "signed_take_bit 31 (sint i + 1) = sint i + 1"
    using assms by (simp add: word_sless_alt signed_take_bit_int_eq_self)
  then show ?thesis
    by (simp add: sint_word_ariths)
qed

lemma sint_of_nat_small:
  "k < 2 ^ 31 \<Longrightarrow> sint (of_nat k :: int32) = int k"
  by (simp add: signed_of_nat signed_take_bit_int_eq_self)

section \<open>The loop as a fold over the values of the counter\<close>

lemma loop_body_split: "loop_body i st = (sum_step i (fst st), snd st @ body_events i)"
  by (simp add: loop_body_def sum_step_def body_events_def Let_def)

lemma fold_loop_body:
  "fold loop_body is st = (fold sum_step is (fst st), snd st @ concat (map body_events is))"
  by (induction "is" arbitrary: st) (simp_all add: loop_body_split)

lemma heavy_loop_exit: "\<not> i <s n \<Longrightarrow> heavy_loop n i st = st"
  by (simp add: heavy_loop.simps)

lemma heavy_loop_fold:
  assumes "k \<le> n" and "n < 2 ^ 31"
  shows "heavy_loop (of_nat n) (of_nat k) st = fold loop_body (map of_nat [k..<n]) st"
  using assms
proof (induction "n - k" arbitrary: k st)
  case 0
  then have "k = n" by simp
  then show ?case by (simp add: heavy_loop_exit word_sless_alt)
next
  case (Suc d)
  then have lt: "k < n" by simp
  with Suc.prems have "(of_nat k :: int32) <s of_nat n"
    by (simp add: word_sless_alt sint_of_nat_small)
  then have "heavy_loop (of_nat n) (of_nat k) st
      = heavy_loop (of_nat n) (of_nat (Suc k)) (loop_body (of_nat k) st)"
    by (subst heavy_loop.simps) (simp add: add.commute)
  also have "\<dots> = fold loop_body (map of_nat [Suc k..<n]) (loop_body (of_nat k) st)"
    using Suc lt by (intro Suc.hyps) simp_all
  finally show ?case
    using lt by (simp add: upt_conv_Cons)
qed


lemma heavy_loop_from_zero:
  "heavy_loop iterations 0 st = fold loop_body (map of_nat [0..<nat (sint iterations)]) st"
proof (cases "0 <s iterations")
  case True
  define n where "n = nat (sint iterations)"
  have pos: "0 < sint iterations"
    using True by (simp add: word_sless_alt)
  have n_lt: "n < 2 ^ 31"
    using sint_lt [of iterations] pos by (simp add: n_def)
  have "sint (of_nat n :: int32) = sint iterations"
    using pos n_lt by (simp add: sint_of_nat_small) (simp add: n_def)
  then have eq: "of_nat n = iterations"
    by (rule signed_word_eqI)
  have "heavy_loop (of_nat n) 0 st = fold loop_body (map of_nat [0..<n]) st"
    using heavy_loop_fold [of 0 n st] n_lt by simp
  then have "heavy_loop iterations 0 st = fold loop_body (map of_nat [0..<n]) st"
    by (simp only: eq)
  then show ?thesis
    by (simp only: n_def)
next
  case False
  then have "nat (sint iterations) = 0"
    by (simp add: word_sless_alt)
  with False show ?thesis
    by (simp add: heavy_loop_exit)
qed

section \<open>The machine accumulation and the one of the specification\<close>

lemma sint_add_wrap32: "sint (a + b :: int32) = wrap32 (sint a + sint b)"
  by (simp add: wrap32_def sint_word_ariths signed_take_bit_eq_take_bit_shift take_bit_eq_mod)

lemma c_rem_of_nat:
  assumes "k < 2 ^ 31"
  shows "c_rem (of_nat k) 1000 = 0 \<longleftrightarrow> int k mod 1000 = 0"
proof -
  have "sint (of_nat k :: int32) smod sint (1000 :: int32) = int k mod 1000"
    using assms by (simp add: sint_of_nat_small smod_int_alt_def sgn_if)
  moreover have "(word_of_int (int k mod 1000) :: int32) = 0 \<longleftrightarrow> int k mod 1000 = 0"
  proof
    assume "(word_of_int (int k mod 1000) :: int32) = 0"
    then have "uint (word_of_int (int k mod 1000) :: int32) = 0"
      by simp
    moreover have "int k mod 1000 < 1000" by simp
    moreover have "0 \<le> int k mod 1000" by simp
    ultimately show "int k mod 1000 = 0"
      by (simp add: uint_word_of_int take_bit_eq_mod)
  qed simp
  ultimately show ?thesis
    by (simp add: c_rem_def)
qed

lemma sum_step_sint:
  assumes "k < 2 ^ 31"
  shows "sint (sum_step (of_nat k) w) = spec_step (int k) (sint w)"
  using assms
  by (simp add: sum_step_def spec_step_def c_rem_of_nat sint_add_wrap32 signed_xor_eq
      sint_of_nat_small Let_def)

lemma fold_sum_step_sint:
  assumes "n < 2 ^ 31"
  shows "sint (fold sum_step (map of_nat [0..<n]) w) = fold spec_step (map int [0..<n]) (sint w)"
  using assms by (induction n) (simp_all add: sum_step_sint)

lemma map_int_upt: "map int [0..<n] = [0..int n - 1]"
  by (induction n) (simp_all add: upto_rec2)


section \<open>What a call returns and what it writes\<close>

lemma sleeps_append: "sleeps (es @ fs) = sleeps es @ sleeps fs"
  by (induction es rule: sleeps.induct) simp_all

lemma iters_append: "iters (es @ fs) = iters es @ iters fs"
  by (induction es rule: iters.induct) simp_all

lemma xor_sites_append: "xor_sites (es @ fs) = xor_sites es @ xor_sites fs"
  by (induction es rule: xor_sites.induct) simp_all

lemma sleeps_body_events: "sleeps (concat (map body_events is)) = []"
  by (induction "is") (simp_all add: sleeps_append body_events_def)

lemma iters_body_events: "iters (concat (map body_events is)) = is"
  by (induction "is") (simp_all add: iters_append body_events_def)

lemma xor_sites_body_events:
  "xor_sites (concat (map body_events is)) = filter (\<lambda>i. c_rem i 1000 = 0) is"
  by (induction "is") (simp_all add: xor_sites_append body_events_def)

lemma loop_events_eq: "loop_events iterations = concat (map body_events (counters iterations))"
  by (simp add: loop_events_def counters_def heavy_loop_from_zero fold_loop_body)

lemma heavy_computation_eq:
  "heavy_computation iterations tr =
     (fold sum_step (counters iterations) 0,
      tr @ loop_events iterations @ (if 0 <s iterations then [Usleep (2000 * 1000)] else []))"
  by (simp add: heavy_computation_def loop_events_eq counters_def heavy_loop_from_zero
      fold_loop_body Let_def)

lemma counters_length: "length (counters iterations) = nat (sint iterations)"
  by (simp add: counters_def)

lemma nat_sint_bound: "nat (sint (w :: int32)) < 2 ^ 31"
  using sint_lt [of w] by simp

lemma heavy_computation_sint:
  "sint (fst (heavy_computation iterations tr)) = spec_heavy (sint iterations)"
proof -
  have "sint (fold sum_step (counters iterations) 0)
      = fold spec_step (map int [0..<nat (sint iterations)]) 0"
    using fold_sum_step_sint [OF nat_sint_bound, of iterations 0]
    by (simp add: counters_def)
  also have "\<dots> = fold spec_step [0..sint iterations - 1] 0"
  proof (cases "0 \<le> sint iterations")
    case True
    then show ?thesis by (simp add: map_int_upt)
  next
    case False
    then show ?thesis by simp
  qed
  finally show ?thesis
    by (simp add: heavy_computation_eq spec_heavy_def)
qed

section \<open>Stretches of the loop without a multiple of 1000\<close>

text \<open>
  Between two multiples of 1000 the loop only adds, so on words the accumulator grows
  by the sum of the counter values, whatever wraps.  With the branch at \<open>0\<close> (which
  changes nothing) and at most one more branch, this gives the result in closed form.
\<close>

lemma c_rem_of_nat_nat:
  assumes "k < 2 ^ 31"
  shows "c_rem (of_nat k) 1000 = 0 \<longleftrightarrow> k mod 1000 = 0"
proof -
  have "int k mod 1000 = int (k mod 1000)"
    by (simp add: zmod_int)
  then have "int k mod 1000 = 0 \<longleftrightarrow> k mod 1000 = 0"
    by simp
  with c_rem_of_nat [OF assms] show ?thesis
    by simp
qed

lemma sum_step_plain:
  "k < 2 ^ 31 \<Longrightarrow> k mod 1000 \<noteq> 0 \<Longrightarrow> sum_step (of_nat k) w = w + of_nat k"
  by (simp add: sum_step_def c_rem_of_nat_nat)

lemma sum_step_site:
  "k < 2 ^ 31 \<Longrightarrow> k mod 1000 = 0 \<Longrightarrow> sum_step (of_nat k) w = (w + of_nat k) XOR of_nat k"
  by (simp add: sum_step_def c_rem_of_nat_nat)

lemma fold_sum_step_plain:
  assumes "b \<le> 2 ^ 31" and "\<forall>k\<in>{a..<b}. k mod 1000 \<noteq> 0"
  shows "fold sum_step (map of_nat [a..<b]) w = w + of_nat (\<Sum>k = a..<b. k)"
  using assms
proof (induction b)
  case 0
  then show ?case by simp
next
  case (Suc b)
  show ?case
  proof (cases "a \<le> b")
    case True
    have "fold sum_step (map of_nat [a..<b]) w = w + of_nat (\<Sum>k = a..<b. k)"
      using Suc by simp
    moreover have "sum_step (of_nat b) (w + of_nat (\<Sum>k = a..<b. k))
        = w + of_nat (\<Sum>k = a..<b. k) + of_nat b"
      using Suc.prems True by (intro sum_step_plain) simp_all
    ultimately show ?thesis
      using True by (simp add: add.assoc)
  next
    case False
    then show ?thesis by simp
  qed
qed

lemma filter_sites_none:
  assumes "b \<le> 2 ^ 31" and "\<forall>k\<in>{a..<b}. k mod 1000 \<noteq> 0"
  shows "filter (\<lambda>i. c_rem i 1000 = 0) (map of_nat [a..<b]) = []"
  using assms by (auto simp: filter_empty_conv c_rem_of_nat_nat)

lemma upt_two_sites:
  assumes "0 < m" and "m < n"
  shows "[0..<n] = 0 # [Suc 0..<m] @ m # [Suc m..<n]"
proof -
  have "[0..<n] = [0..<m] @ [m..<n]"
    using assms upt_add_eq_append [of 0 m "n - m"] by simp
  moreover have "[0..<m] = 0 # [Suc 0..<m]"
    using assms by (simp add: upt_conv_Cons)
  moreover have "[m..<n] = m # [Suc m..<n]"
    using assms by (simp add: upt_conv_Cons)
  ultimately show ?thesis by simp
qed

lemma below_1000: "\<forall>k\<in>{Suc 0..<n}. k mod 1000 \<noteq> 0" if "n \<le> 1000"
  using that by auto

lemma below_2000: "\<forall>k\<in>{Suc 1000..<n}. k mod 1000 \<noteq> 0" if "n \<le> 2000"
proof
  fix k assume k: "k \<in> {Suc 1000..<n}"
  then have "k mod 1000 = (k - 1000) mod 1000"
    using le_mod_geq [of 1000 k] by simp
  also have "\<dots> = k - 1000"
  proof (rule mod_less)
    show "k - 1000 < 1000" using k that by auto
  qed
  finally show "k mod 1000 \<noteq> 0"
    using k by simp
qed

lemma one_site:
  assumes "0 < n" and "n \<le> 2 ^ 31" and "\<forall>k\<in>{Suc 0..<n}. k mod 1000 \<noteq> 0"
  shows "fold sum_step (map of_nat [0..<n]) 0 = of_nat (\<Sum>k = Suc 0..<n. k)"
    and "filter (\<lambda>i. c_rem i 1000 = 0) (map of_nat [0..<n]) = [0]"
proof -
  have split: "[0..<n] = 0 # [Suc 0..<n]"
    using assms(1) by (rule upt_conv_Cons)
  have zero: "sum_step 0 0 = 0"
    using sum_step_site [of 0 0] by simp
  have site: "c_rem 0 1000 = 0"
    using c_rem_of_nat_nat [of 0] by simp
  show "fold sum_step (map of_nat [0..<n]) 0 = of_nat (\<Sum>k = Suc 0..<n. k)"
    using fold_sum_step_plain [OF assms(2,3), of 0]
    by (simp add: split zero)
  show "filter (\<lambda>i. c_rem i 1000 = 0) (map of_nat [0..<n]) = [0]"
    using filter_sites_none [OF assms(2,3)]
    by (simp add: split site)
qed

lemma two_sites:
  assumes "0 < m" and "m < n" and "n \<le> 2 ^ 31" and "m mod 1000 = 0"
    and "\<forall>k\<in>{Suc 0..<m}. k mod 1000 \<noteq> 0"
    and "\<forall>k\<in>{Suc m..<n}. k mod 1000 \<noteq> 0"
  shows "fold sum_step (map of_nat [0..<n]) 0
      = ((of_nat (\<Sum>k = Suc 0..<m. k) + of_nat m) XOR of_nat m) + of_nat (\<Sum>k = Suc m..<n. k)"
    and "filter (\<lambda>i. c_rem i 1000 = 0) (map of_nat [0..<n]) = [0, of_nat m]"
proof -
  have m_le: "m \<le> 2 ^ 31" and m_lt: "m < 2 ^ 31"
    using assms(2,3) by simp_all
  have split: "[0..<n] = [0..<m] @ m # [Suc m..<n]"
    using upt_two_sites [OF assms(1,2)] upt_conv_Cons [OF assms(1)] by simp
  have site: "c_rem (of_nat m) 1000 = 0"
    using c_rem_of_nat_nat [OF m_lt] assms(4) by simp
  have "fold sum_step (map of_nat [0..<n]) 0
      = fold sum_step (map of_nat [Suc m..<n])
          (sum_step (of_nat m) (fold sum_step (map of_nat [0..<m]) 0))"
    by (simp only: split map_append list.map fold_append fold_simps o_apply)
  also have "\<dots> = fold sum_step (map of_nat [Suc m..<n])
          (sum_step (of_nat m) (of_nat (\<Sum>k = Suc 0..<m. k)))"
    by (simp only: one_site(1) [OF assms(1) m_le assms(5)])
  also have "\<dots> = fold sum_step (map of_nat [Suc m..<n])
          ((of_nat (\<Sum>k = Suc 0..<m. k) + of_nat m) XOR of_nat m)"
    by (simp only: sum_step_site [OF m_lt assms(4)])
  also have "\<dots> = ((of_nat (\<Sum>k = Suc 0..<m. k) + of_nat m) XOR of_nat m)
          + of_nat (\<Sum>k = Suc m..<n. k)"
    by (rule fold_sum_step_plain [OF assms(3,6)])
  finally show "fold sum_step (map of_nat [0..<n]) 0
      = ((of_nat (\<Sum>k = Suc 0..<m. k) + of_nat m) XOR of_nat m) + of_nat (\<Sum>k = Suc m..<n. k)" .
  show "filter (\<lambda>i. c_rem i 1000 = 0) (map of_nat [0..<n]) = [0, of_nat m]"
    using one_site(2) [OF assms(1) m_le assms(5)] filter_sites_none [OF assms(3,6)] site
    by (simp add: split)
qed


lemma counters_2000: "counters 2000 = map of_nat [0..<2000]"
  by (simp add: counters_def)

lemma xor_sites_heavy_computation:
  "xor_sites (snd (heavy_computation iterations [])) = filter (\<lambda>i. c_rem i 1000 = 0) (counters iterations)"
  by (simp add: heavy_computation_eq xor_sites_append loop_events_eq xor_sites_body_events)

section \<open>\<open>native_add\<close> wraps\<close>

text \<open>
  Claim C2.  For all \<open>int32_t\<close> values \<open>x\<close> and \<open>y\<close>, the value returned by
  \<open>native_add\<close> is \<open>(x + y) mod 2 ^ 32\<close> read as a signed 32-bit number: the
  unsigned reading of the result is the sum of the signed arguments modulo \<open>2 ^ 32\<close>,
  and its signed reading is that residue moved into \<open>[- 2 ^ 31, 2 ^ 31)\<close>.  It
  neither saturates nor traps: \<open>native_add INT32_MAX 1\<close> is \<open>INT32_MIN\<close>.
\<close>

theorem native_add_wraps:
  "uint (fst (native_add x y tr)) = (sint x + sint y) mod 2 ^ 32
   \<and> sint (fst (native_add x y tr)) = (sint x + sint y + 2 ^ 31) mod 2 ^ 32 - 2 ^ 31
   \<and> sint (fst (native_add 0x7FFFFFFF 1 tr)) = - (2 ^ 31)"
proof -
  have u: "uint (x + y) = (sint x + sint y) mod 2 ^ 32"
  proof -
    have "uint (word_of_int (sint x + sint y) :: int32) = (sint x + sint y) mod 2 ^ 32"
      by (simp only: uint_word_of_int) simp
    then show ?thesis by simp
  qed
  have s: "sint (x + y) = (sint x + sint y + 2 ^ 31) mod 2 ^ 32 - 2 ^ 31"
    by (simp add: sint_word_ariths signed_take_bit_eq_take_bit_shift take_bit_eq_mod)
  have m: "sint (0x7FFFFFFF + 1 :: int32) = - (2 ^ 31)"
    by simp
  from u s m show ?thesis
    by (simp add: native_add_def)
qed

section \<open>The value of \<open>heavy_computation\<close>\<close>

text \<open>
  Claim C1.  For every positive \<open>iterations\<close>, the value returned by
  \<open>heavy_computation\<close>, read as a signed number, is the accumulation of the
  specification: from \<open>0\<close>, for \<open>i\<close> from \<open>0\<close> to \<open>iterations - 1\<close>, add \<open>i\<close>
  with 32-bit signed wrap-around and, exactly when \<open>i\<close> is a multiple of 1000
  (\<open>0\<close> included), apply the exclusive or with \<open>i\<close> after the addition.
\<close>

theorem heavy_computation_refines_spec:
  "0 <s iterations \<Longrightarrow> sint (fst (heavy_computation iterations tr)) = spec_heavy (sint iterations)"
  by (rule heavy_computation_sint)

text \<open>Three iterations: \<open>0 + 0\<close>, exclusive or with \<open>0\<close>, then \<open>+ 1\<close> and \<open>+ 2\<close>.\<close>

theorem heavy_computation_refines_spec_witness:
  "(0 :: int32) <s 3 \<and> sint (fst (heavy_computation 3 [])) = spec_heavy 3 \<and> spec_heavy 3 = 3"
  using heavy_computation_refines_spec [of 3 "[]"]
  by (simp add: word_sless_alt spec_heavy_def spec_step_def wrap32_def upto.simps)

text \<open>
  Claim C3.  When \<open>iterations\<close> is zero or negative, the call returns \<open>0\<close> and the
  trace is handed back as it came: no iteration of the loop ran (and no sleep).
\<close>

theorem heavy_computation_nonpositive:
  "iterations \<le>s 0 \<Longrightarrow> heavy_computation iterations tr = (0, tr)"
proof -
  assume "iterations \<le>s 0"
  then have neg: "\<not> 0 <s iterations"
    by (simp add: word_sle_eq word_sless_alt)
  then have "heavy_loop iterations 0 (0, tr) = (0, tr)"
    by (rule heavy_loop_exit)
  with neg show ?thesis
    by (simp add: heavy_computation_def)
qed

theorem heavy_computation_nonpositive_witness:
  "(- 5 :: int32) \<le>s 0 \<and> heavy_computation (- 5) [] = (0, [])
   \<and> (0 :: int32) \<le>s 0 \<and> heavy_computation 0 [] = (0, [])"
  using heavy_computation_nonpositive [of "- 5" "[]"] heavy_computation_nonpositive [of 0 "[]"]
  by (simp add: word_sle_eq)

text \<open>
  Claim C5.  \<open>heavy_computation 1\<close> returns \<open>0\<close>: the loop runs once, with
  \<open>i = 0\<close>, takes the branch \<open>sum ^= i\<close> there, and the sleep follows.
\<close>

theorem heavy_computation_one:
  "heavy_computation 1 tr = (0, tr @ [Iter 0, Xor 0, Usleep (2000 * 1000)])"
proof -
  have "heavy_loop 1 0 (0, tr) = heavy_loop 1 1 (loop_body 0 (0, tr))"
    by (subst heavy_loop.simps) (simp add: word_sless_alt)
  also have "\<dots> = loop_body 0 (0, tr)"
    by (simp add: heavy_loop_exit word_sless_alt)
  also have "\<dots> = (0, tr @ [Iter 0, Xor 0])"
    by (simp add: loop_body_def c_rem_def)
  finally show ?thesis
    by (simp add: heavy_computation_def word_sless_alt)
qed


section \<open>Effects, determinism and totality\<close>

text \<open>
  Claim C4.  The trace handed back by \<open>heavy_computation\<close> is the incoming trace,
  then the events of the loop, then one \<open>usleep\<close> call if and only if
  \<open>iterations\<close> is positive.  The loop itself never sleeps and its events cover all
  \<open>iterations\<close> iterations, so the sleep comes after the loop has completed.  Its
  argument is \<open>2000 * 1000\<close> microseconds, that is 2000 milliseconds, whatever
  \<open>iterations\<close> is, and it is the only \<open>usleep\<close> call of the whole run.
  \<open>native_add\<close> leaves the trace as it is.
\<close>

theorem sleep_effect:
  "snd (heavy_computation iterations tr)
     = tr @ loop_events iterations @ (if 0 <s iterations then [Usleep (2000 * 1000)] else [])
   \<and> sleeps (loop_events iterations) = []
   \<and> iters (loop_events iterations) = counters iterations
   \<and> length (counters iterations) = nat (sint iterations)
   \<and> sleeps (snd (heavy_computation iterations [])) = (if 0 <s iterations then [2000 * 1000] else [])
   \<and> snd (native_add x y tr) = tr"
  by (simp add: heavy_computation_eq loop_events_eq sleeps_body_events iters_body_events
      sleeps_append counters_length native_add_def)

text \<open>
  Claim C7.  Both functions are deterministic and stateless.  The value a call
  returns is the same whatever happened before it (whatever the incoming trace is),
  and all a call does to the trace is to append events that depend on its argument
  only; \<open>native_add\<close> appends nothing.
\<close>

theorem deterministic_stateless:
  "fst (heavy_computation iterations tr) = fst (heavy_computation iterations tr')
   \<and> snd (heavy_computation iterations tr) = tr @ snd (heavy_computation iterations [])
   \<and> fst (native_add x y tr) = fst (native_add x y tr')
   \<and> snd (native_add x y tr) = tr"
  by (simp add: heavy_computation_eq native_add_def)

text \<open>
  Claim C8.  Both functions are total.  Every argument triple is in the domain of
  the loop, that is, the loop terminates from every state, for every \<open>iterations\<close>
  up to \<open>INT32_MAX\<close>; it runs \<open>iterations\<close> times when that is positive and not
  at all otherwise, fewer than \<open>2 ^ 31\<close> times in any case; whenever the body runs,
  the increment \<open>i++\<close> that follows does not overflow; and each call hands back a
  value.  The additions on the accumulator wrap around.
\<close>

theorem total_functions:
  "heavy_loop_dom (iterations, i, st)
   \<and> length (iters (loop_events iterations)) = nat (sint iterations)
   \<and> nat (sint iterations) < 2 ^ 31
   \<and> (i <s iterations \<longrightarrow> sint (i + 1) = sint i + 1)
   \<and> (\<exists>r. heavy_computation iterations tr = (r, tr @ snd (heavy_computation iterations [])))
   \<and> (\<exists>r. native_add x y tr = (r, tr))"
proof -
  have "All heavy_loop_dom"
    by (relation "measure (\<lambda>(n, i, st). nat (sint n - sint i))")
       (simp_all add: sint_succ_below word_sless_alt)
  then have "heavy_loop_dom (iterations, i, st)"
    by (rule spec)
  moreover have "length (iters (loop_events iterations)) = nat (sint iterations)"
    by (simp add: loop_events_eq iters_body_events counters_length)
  moreover have "nat (sint iterations) < 2 ^ 31"
    by (rule nat_sint_bound)
  moreover have "i <s iterations \<longrightarrow> sint (i + 1) = sint i + 1"
    by (simp add: sint_succ_below)
  moreover have "\<exists>r. heavy_computation iterations tr = (r, tr @ snd (heavy_computation iterations []))"
    by (simp add: heavy_computation_eq)
  moreover have "\<exists>r. native_add x y tr = (r, tr)"
    by (simp add: native_add_def)
  ultimately show ?thesis
    by simp
qed

text \<open>At \<open>INT32_MAX\<close> the loop runs \<open>2147483647\<close> times and terminates.\<close>

theorem total_functions_witness:
  "heavy_loop_dom (0x7FFFFFFF, 0, (0, []))
   \<and> length (iters (loop_events 0x7FFFFFFF)) = 2147483647
   \<and> (0 :: int32) <s 0x7FFFFFFF \<and> sint (0 + 1 :: int32) = sint (0 :: int32) + 1"
  using total_functions [of "0x7FFFFFFF" 0 "(0, [])" "[]" 0 0]
  by (simp add: word_sless_alt)


section \<open>Two thousand iterations, and up to a thousand\<close>

text \<open>
  Claim C6.  In the run of \<open>heavy_computation 2000\<close> the statement \<open>sum ^= i\<close> runs
  at exactly two values of the counter, \<open>0\<close> and \<open>1000\<close>, in this order, and the
  value returned is the one of the reference accumulation of the specification,
  which is \<open>1998464\<close>.
\<close>

theorem heavy_computation_2000:
  "xor_sites (snd (heavy_computation 2000 [])) = [0, 1000]
   \<and> sint (fst (heavy_computation 2000 tr)) = spec_heavy 2000
   \<and> fst (heavy_computation 2000 tr) = 1998464
   \<and> spec_heavy 2000 = 1998464"
proof -
  have lo: "\<forall>k\<in>{Suc 0..<1000}. k mod 1000 \<noteq> 0"
    by (rule below_1000) simp
  have hi: "\<forall>k\<in>{Suc 1000..<2000}. k mod 1000 \<noteq> 0"
    by (rule below_2000) simp
  have sites: "filter (\<lambda>i. c_rem i 1000 = 0) (map of_nat [0..<2000]) = [0, of_nat 1000 :: int32]"
    by (rule two_sites(2) [OF _ _ _ _ lo hi]) simp_all
  have "fold sum_step (map of_nat [0..<2000]) 0
      = ((of_nat (\<Sum>k = Suc 0..<1000. k) + of_nat 1000) XOR of_nat 1000)
          + (of_nat (\<Sum>k = Suc 1000..<2000. k) :: int32)"
    by (rule two_sites(1) [OF _ _ _ _ lo hi]) simp_all
  also have "\<dots> = 1998464"
    by (simp add: Sum_Ico_nat)
  finally have val: "fold sum_step (map of_nat [0..<2000]) 0 = (1998464 :: int32)" .
  have "xor_sites (snd (heavy_computation 2000 [])) = [0, 1000]"
    using sites by (simp only: xor_sites_heavy_computation counters_2000) simp
  moreover have "sint (fst (heavy_computation 2000 tr)) = spec_heavy 2000"
    using heavy_computation_sint [of 2000 tr] by simp
  moreover have res: "fst (heavy_computation 2000 tr) = 1998464"
    using val by (simp only: heavy_computation_eq fst_conv counters_2000)
  moreover have "spec_heavy 2000 = 1998464"
    using heavy_computation_sint [of 2000 tr] by (simp add: res)
  ultimately show ?thesis
    by simp
qed

text \<open>
  Claim C10.  For \<open>iterations\<close> from \<open>1\<close> to \<open>1000\<close> the value returned is the
  triangular number \<open>iterations * (iterations - 1) / 2\<close>, exactly: nothing wraps,
  and the only value of the counter at which \<open>sum ^= i\<close> runs is \<open>0\<close>, where it
  changes nothing.
\<close>

theorem heavy_computation_triangular:
  assumes "1 \<le> sint iterations" and "sint iterations \<le> 1000"
  shows "sint (fst (heavy_computation iterations tr)) = sint iterations * (sint iterations - 1) div 2
    \<and> xor_sites (snd (heavy_computation iterations [])) = [0]"
proof -
  define n where "n = nat (sint iterations)"
  have n: "0 < n" "n \<le> 1000" and int_n: "int n = sint iterations"
    using assms by (simp_all add: n_def)
  have n_le: "n \<le> 2 ^ 31"
    using n by simp
  have none: "\<forall>k\<in>{Suc 0..<n}. k mod 1000 \<noteq> 0"
    using n(2) by (rule below_1000)
  have cs: "counters iterations = map of_nat [0..<n]"
    by (simp add: counters_def n_def)
  have "n * (n - 1) \<le> 1000 * 1000"
    using n by (intro mult_le_mono) simp_all
  then have small: "n * (n - 1) div 2 < 2 ^ 31"
    by simp
  have "fst (heavy_computation iterations tr) = of_nat (\<Sum>k = Suc 0..<n. k)"
    by (simp add: heavy_computation_eq cs one_site(1) [OF n(1) n_le none])
  also have "\<dots> = of_nat (n * (n - 1) div 2)"
    by (simp add: Sum_Ico_nat)
  finally have "sint (fst (heavy_computation iterations tr)) = int (n * (n - 1) div 2)"
    using small by (simp only: sint_of_nat_small)
  also have "\<dots> = int n * (int n - 1) div 2"
    using n(1) by (simp add: zdiv_int of_nat_diff)
  finally have "sint (fst (heavy_computation iterations tr))
      = sint iterations * (sint iterations - 1) div 2"
    by (simp only: int_n)
  moreover have "xor_sites (snd (heavy_computation iterations [])) = [0]"
    by (simp add: xor_sites_heavy_computation cs one_site(2) [OF n(1) n_le none])
  ultimately show ?thesis
    by simp
qed

text \<open>The largest case: \<open>1000 * 999 / 2 = 499500\<close>.\<close>

theorem heavy_computation_triangular_witness:
  "1 \<le> sint (1000 :: int32) \<and> sint (1000 :: int32) \<le> 1000
   \<and> sint (fst (heavy_computation 1000 [])) = 499500
   \<and> xor_sites (snd (heavy_computation 1000 [])) = [0]"
  using heavy_computation_triangular [of 1000 "[]"]
  by simp


end
